theory Spec2Isabelle
  imports Main "HOL-Library.Word"
begin

section \<open>The intrusive singly-linked list of ccan/slist\<close>

subsection \<open>Memory\<close>

text \<open>
  Pointers and \<open>size_t\<close> displacements are 64-bit machine words; pointer arithmetic on
  \<open>char *\<close> is word arithmetic (it wraps). \<open>NULL\<close> is the address 0.

  \<open>struct slist_node { struct slist_node *next; }\<close> has the single field \<open>next\<close>, so the
  store maps the address of a node to the value of its \<open>next\<close> field. A cell never written
  holds whatever the store holds there (uninitialised memory). Distinct node addresses
  denote distinct node objects.

  \<open>struct slist_head { struct slist_node n; }\<close> holds its node at displacement 0, so
  \<open>&h->n\<close> is the address \<open>h\<close> itself and \<open>h->n.next\<close> is the store at \<open>h\<close>.
\<close>

type_synonym addr = "64 word"

type_synonym heap = "addr \<Rightarrow> addr"

definition NULL :: addr where
  "NULL = 0"

subsection \<open>The integrity checker, as built without \<open>CCAN_SLIST_DEBUG\<close>\<close>

text \<open>
  \<open>slist.h\<close> leaves \<open>CCAN_SLIST_DEBUG\<close> undefined (the \<open>#define\<close> is commented out), so
  \<open>slist_debug(h, loc)\<close> is \<open>((void)loc, h)\<close> and \<open>slist_check_node\<close> is the \<open>#else\<close>
  branch of \<open>slist.c\<close>. The abort string is a \<open>const char *\<close>: \<open>None\<close> is \<open>NULL\<close>.
  The functions are given the store and hand it back, so that what they do to it can be
  stated.
\<close>

definition slist_check_node :: "heap \<Rightarrow> addr \<Rightarrow> string option \<Rightarrow> addr \<times> heap" where
  "slist_check_node s node abortstr = (node, s)"

definition slist_check :: "heap \<Rightarrow> addr \<Rightarrow> string option \<Rightarrow> addr \<times> heap" where
  "slist_check s h abortstr =
     (case slist_check_node s h abortstr of
        (r, s') \<Rightarrow> if r = NULL then (NULL, s') else (h, s'))"

definition slist_debug :: "heap \<Rightarrow> addr \<Rightarrow> string option \<Rightarrow> addr \<times> heap" where
  "slist_debug s h loc = (h, s)"

definition slist_debug_node :: "heap \<Rightarrow> addr \<Rightarrow> string option \<Rightarrow> addr \<times> heap" where
  "slist_debug_node s n loc = (n, s)"

subsection \<open>The raw list engine\<close>

text \<open>
  The C functions whose names end in an underscore (\<open>slist_add_\<close>, \<open>slist_add_after_\<close>,
  \<open>slist_empty_\<close>, \<open>slist_top_\<close>, \<open>slist_pop_\<close>, \<open>slist_node_to_off_\<close>,
  \<open>slist_node_from_off_\<close>) are written here without it, a constant name cannot end in
  one. The macros of those names only supply \<open>SLIST_LOC\<close> and the displacement, and cast.
\<close>

definition slist_head_init :: "heap \<Rightarrow> addr \<Rightarrow> heap" where
  "slist_head_init s h = s(h := h)"

text \<open>\<open>n->next = p->next; p->next = n; (void)slist_debug(h, abortstr);\<close>\<close>

definition slist_add_after :: "heap \<Rightarrow> addr \<Rightarrow> addr \<Rightarrow> addr \<Rightarrow> string option \<Rightarrow> heap" where
  "slist_add_after s h p n abortstr =
     (let s1 = s(n := s p);
          s2 = s1(p := n)
      in snd (slist_debug s2 h abortstr))"

text \<open>\<open>n->next = h->n.next; h->n.next = n;\<close>\<close>

definition slist_add :: "heap \<Rightarrow> addr \<Rightarrow> addr \<Rightarrow> string option \<Rightarrow> heap" where
  "slist_add s h n abortstr =
     (let s1 = s(n := s h)
      in s1(h := n))"

text \<open>\<open>(void)slist_debug(h, abortstr); return h->n.next == &h->n;\<close>\<close>

definition slist_empty :: "heap \<Rightarrow> addr \<Rightarrow> string option \<Rightarrow> bool" where
  "slist_empty s h abortstr =
     (let s' = snd (slist_debug s h abortstr)
      in s' h = h)"

text \<open>The offset helpers: \<open>(char *)node - off\<close> and \<open>(char *)ptr + off\<close>.\<close>

definition slist_node_to_off :: "addr \<Rightarrow> addr \<Rightarrow> addr" where
  "slist_node_to_off node off = node - off"

definition slist_node_from_off :: "addr \<Rightarrow> addr \<Rightarrow> addr" where
  "slist_node_from_off ptr off = ptr + off"

text \<open>
  \<open>slist_top\<close> and \<open>slist_pop\<close> call the macro \<open>slist_empty(h)\<close>, which passes
  \<open>SLIST_LOC\<close>, a string naming file and line; it is the parameter \<open>loc\<close> here.
\<close>

definition slist_top :: "heap \<Rightarrow> addr \<Rightarrow> addr \<Rightarrow> string option \<Rightarrow> addr" where
  "slist_top s h off loc =
     (if slist_empty s h loc then NULL
      else s h - off)"

definition slist_pop :: "heap \<Rightarrow> addr \<Rightarrow> addr \<Rightarrow> string option \<Rightarrow> addr \<times> heap" where
  "slist_pop s h off loc =
     (if slist_empty s h loc then (NULL, s)
      else (let n = s h;
                s' = s(h := s n)
            in (n - off, s')))"

text \<open>
  \<open>slist_for_each_off(h, i, off)\<close> is the loop
  \<open>for (i = to_off(slist_debug(h, LOC)->n.next, off); from_off(i, off) != &h->n;
        i = to_off(from_off(i, off)->next, off))\<close>.
  The model runs it with a body that records \<open>i\<close> and neither breaks nor writes the
  store, and returns the values of \<open>i\<close> in the order visited. On a chain that never comes
  back to the head the loop does not end: the result is \<open>None\<close>.
\<close>

partial_function (option) for_each_loop :: "heap \<Rightarrow> addr \<Rightarrow> addr \<Rightarrow> addr \<Rightarrow> addr list option" where
  "for_each_loop s h i off =
     (if slist_node_from_off i off \<noteq> h
      then Option.bind
             (for_each_loop s h (slist_node_to_off (s (slist_node_from_off i off)) off) off)
             (\<lambda>rest. Some (i # rest))
      else Some [])"

definition slist_for_each_off :: "heap \<Rightarrow> addr \<Rightarrow> addr \<Rightarrow> string option \<Rightarrow> addr list option" where
  "slist_for_each_off s h off loc =
     (case slist_debug s h loc of
        (h', s') \<Rightarrow> for_each_loop s' h (slist_node_to_off (s' h') off) off)"

text \<open>
  \<open>slist_for_each(h, i, member)\<close> is \<open>slist_for_each_off\<close> at the displacement of
  \<open>member\<close> in the owner record (\<open>slist_off_var_\<close> adds a type check that is 0).
\<close>

definition slist_for_each :: "heap \<Rightarrow> addr \<Rightarrow> addr \<Rightarrow> string option \<Rightarrow> addr list option" where
  "slist_for_each s h member_off loc = slist_for_each_off s h member_off loc"

subsection \<open>The integrity checker, as written under \<open>CCAN_SLIST_DEBUG\<close>\<close>

text \<open>
  The \<open>#ifdef CCAN_SLIST_DEBUG\<close> branch of \<open>slist.c\<close> reads \<open>n->prev\<close>, a field that
  \<open>struct slist_node\<close> does not declare. The missing field is the parameter \<open>prev\<close>: the
  value that would be read at each node address. No function of \<open>slist.h\<close> writes it.

  \<open>corrupt\<close> prints and calls \<open>abort()\<close> when given an abort string, and returns \<open>NULL\<close>
  otherwise. The loop of \<open>slist_check_node\<close> follows \<open>next\<close> until it is back at \<open>node\<close>;
  on a chain that never comes back it does not end, which is \<open>None\<close>.
\<close>

datatype fault = Aborted

definition corrupt :: "string option \<Rightarrow> addr \<Rightarrow> addr \<Rightarrow> 32 word \<Rightarrow> fault + addr" where
  "corrupt abortstr head node count =
     (if abortstr \<noteq> None then Inl Aborted
      else Inr NULL)"

partial_function (option) check_node_loop ::
  "heap \<Rightarrow> heap \<Rightarrow> string option \<Rightarrow> addr \<Rightarrow> addr \<Rightarrow> addr \<Rightarrow> 32 word \<Rightarrow> (fault + addr) option" where
  "check_node_loop prev s abortstr node p n count =
     (if n \<noteq> node
      then (if prev n \<noteq> p then Some (corrupt abortstr node n (count + 1))
            else check_node_loop prev s abortstr node n (s n) (count + 1))
      else if prev node \<noteq> p then Some (corrupt abortstr node node 0)
      else Some (Inr node))"

definition slist_check_node_debug ::
  "heap \<Rightarrow> heap \<Rightarrow> addr \<Rightarrow> string option \<Rightarrow> (fault + addr) option" where
  "slist_check_node_debug prev s node abortstr =
     check_node_loop prev s abortstr node node (s node) 0"

definition slist_check_debug ::
  "heap \<Rightarrow> heap \<Rightarrow> addr \<Rightarrow> string option \<Rightarrow> (fault + addr) option" where
  "slist_check_debug prev s h abortstr =
     (case slist_check_node_debug prev s h abortstr of
        None \<Rightarrow> None
      | Some (Inl f) \<Rightarrow> Some (Inl f)
      | Some (Inr r) \<Rightarrow> Some (Inr (if r = NULL then NULL else h)))"

subsection \<open>Sequences of operations on one head\<close>

text \<open>
  The documented mutations, applied to the head \<open>h\<close>; \<open>off\<close> and \<open>loc\<close> are the
  displacement and the location string that the calls pass along.
\<close>

datatype op = Init | Prepend addr | InsertAfter addr addr | PopFirst

fun run_op :: "addr \<Rightarrow> addr \<Rightarrow> string option \<Rightarrow> heap \<Rightarrow> op \<Rightarrow> heap" where
  "run_op h off loc s Init = slist_head_init s h"
| "run_op h off loc s (Prepend n) = slist_add s h n loc"
| "run_op h off loc s (InsertAfter p n) = slist_add_after s h p n loc"
| "run_op h off loc s PopFirst = snd (slist_pop s h off loc)"

definition run_ops :: "addr \<Rightarrow> addr \<Rightarrow> string option \<Rightarrow> heap \<Rightarrow> op list \<Rightarrow> heap" where
  "run_ops h off loc s ops = foldl (run_op h off loc) s ops"

text \<open>
  The links of the list, as the traversal at displacement 0 finds them, and the condition
  under which an operation is used as documented: a link that is added is neither the
  head's own link nor already in the chain, and \<open>slist_add_after\<close> is given a link of the
  chain (the head's own link included).
\<close>

definition chain_links :: "heap \<Rightarrow> addr \<Rightarrow> addr list option" where
  "chain_links s h = slist_for_each_off s h 0 None"

fun op_ok :: "addr \<Rightarrow> heap \<Rightarrow> op \<Rightarrow> bool" where
  "op_ok h s Init = True"
| "op_ok h s (Prepend n) =
     (case chain_links s h of
        None \<Rightarrow> False
      | Some xs \<Rightarrow> n \<noteq> h \<and> n \<notin> set xs)"
| "op_ok h s (InsertAfter p n) =
     (case chain_links s h of
        None \<Rightarrow> False
      | Some xs \<Rightarrow> n \<noteq> h \<and> n \<notin> set xs \<and> (p = h \<or> p \<in> set xs))"
| "op_ok h s PopFirst = True"

fun ops_ok :: "addr \<Rightarrow> addr \<Rightarrow> string option \<Rightarrow> heap \<Rightarrow> op list \<Rightarrow> bool" where
  "ops_ok h off loc s [] = True"
| "ops_ok h off loc s (x # xs) = (op_ok h s x \<and> ops_ok h off loc (run_op h off loc s x) xs)"

text \<open>Prepending the links of the owner records \<open>rs\<close> one after the other, and popping \<open>k\<close> times.\<close>

definition prepend_all :: "heap \<Rightarrow> addr \<Rightarrow> addr \<Rightarrow> string option \<Rightarrow> addr list \<Rightarrow> heap" where
  "prepend_all s h off loc rs =
     foldl (\<lambda>s' r. slist_add s' h (slist_node_from_off r off) loc) s rs"

definition pop_times :: "nat \<Rightarrow> heap \<Rightarrow> addr \<Rightarrow> addr \<Rightarrow> string option \<Rightarrow> heap" where
  "pop_times k s h off loc = ((\<lambda>s'. snd (slist_pop s' h off loc)) ^^ k) s"

subsection \<open>The shape of a chain\<close>

text \<open>
  \<open>chain s p xs q\<close>: following \<open>next\<close> from \<open>p\<close> passes the links \<open>xs\<close>, in this order, and
  arrives at \<open>q\<close>. \<open>is_slist s h xs\<close>: the chain of head \<open>h\<close> consists of the links \<open>xs\<close>,
  each once, and comes back to the head's own link.
\<close>

fun chain :: "heap \<Rightarrow> addr \<Rightarrow> addr list \<Rightarrow> addr \<Rightarrow> bool" where
  "chain s p [] q = (p = q)"
| "chain s p (x # xs) q = (p = x \<and> chain s (s x) xs q)"

definition is_slist :: "heap \<Rightarrow> addr \<Rightarrow> addr list \<Rightarrow> bool" where
  "is_slist s h xs = (chain s (s h) xs h \<and> distinct xs \<and> h \<notin> set xs)"

text \<open>
  \<open>single_cycle s h xs\<close>: the head's link and the links \<open>xs\<close> are pairwise different;
  from the head's link, \<open>length xs + 1\<close> steps along \<open>next\<close> lead back to it and no
  fewer do; from the link at position \<open>i\<close> of \<open>xs\<close> (counted from 0), \<open>length xs - i\<close>
  steps lead to the head's link and no fewer do.
\<close>

definition single_cycle :: "heap \<Rightarrow> addr \<Rightarrow> addr list \<Rightarrow> bool" where
  "single_cycle s h xs =
     (distinct (h # xs) \<and>
      (s ^^ Suc (length xs)) h = h \<and>
      (\<forall>j \<in> {1..length xs}. (s ^^ j) h \<noteq> h) \<and>
      (\<forall>i \<in> {0..<length xs}.
         (s ^^ (length xs - i)) (xs ! i) = h \<and>
         (\<forall>j \<in> {0..<length xs - i}. (s ^^ j) (xs ! i) \<noteq> h)))"

section \<open>Properties\<close>

subsection \<open>Traversal of a well-formed chain\<close>

lemma to_from_off: "slist_node_from_off (slist_node_to_off n off) off = n"
  by (simp add: slist_node_to_off_def slist_node_from_off_def)

lemma from_to_off: "slist_node_to_off (slist_node_from_off r off) off = r"
  by (simp add: slist_node_to_off_def slist_node_from_off_def)

lemma for_each_loop_chain:
  "chain s p xs h \<Longrightarrow> h \<notin> set xs \<Longrightarrow>
   for_each_loop s h (slist_node_to_off p off) off = Some (map (\<lambda>n. slist_node_to_off n off) xs)"
proof (induction xs arbitrary: p)
  case Nil
  then show ?case
    by (subst for_each_loop.simps) (simp add: to_from_off)
next
  case (Cons x xs)
  from Cons.prems have px: "p = x" and rest: "chain s (s x) xs h" and xh: "x \<noteq> h" and hn: "h \<notin> set xs"
    by auto
  from Cons.IH [OF rest hn] px xh show ?case
    by (subst for_each_loop.simps) (simp add: to_from_off)
qed

lemma slist_for_each_off_is_slist:
  "is_slist s h xs \<Longrightarrow> slist_for_each_off s h off loc = Some (map (\<lambda>n. slist_node_to_off n off) xs)"
  by (simp add: is_slist_def slist_for_each_off_def slist_debug_def for_each_loop_chain)

lemma chain_links_is_slist: "is_slist s h xs \<Longrightarrow> chain_links s h = Some xs"
  by (simp add: chain_links_def slist_for_each_off_is_slist slist_node_to_off_def)

lemma chain_upd: "u \<notin> set xs \<Longrightarrow> chain (s(u := v)) p xs q = chain s p xs q"
  by (induction xs arbitrary: p) auto

lemma chain_append: "chain s p (xs @ ys) q = (\<exists>m. chain s p xs m \<and> chain s m ys q)"
  by (induction xs arbitrary: p) auto

lemma is_slist_init: "is_slist (slist_head_init s h) h []"
  by (simp add: is_slist_def slist_head_init_def)

lemma is_slist_add:
  assumes "is_slist s h xs" "n \<noteq> h" "n \<notin> set xs"
  shows "is_slist (slist_add s h n loc) h (n # xs)"
  using assms by (auto simp: is_slist_def slist_add_def Let_def chain_upd)

lemma is_slist_empty: "is_slist s h xs \<Longrightarrow> slist_empty s h loc = (xs = [])"
  by (cases xs) (auto simp: is_slist_def slist_empty_def slist_debug_def)

lemma is_slist_pop:
  assumes "is_slist s h xs"
  shows "is_slist (snd (slist_pop s h off loc)) h (tl xs)"
proof (cases xs)
  case Nil
  with assms show ?thesis
    using is_slist_empty [OF assms, of loc] by (simp add: slist_pop_def)
next
  case (Cons x ys)
  with assms have e: "\<not> slist_empty s h loc"
    using is_slist_empty [OF assms, of loc] by simp
  from assms Cons have "s h = x" "chain s (s x) ys h" "h \<notin> set ys" "distinct ys" "x \<noteq> h"
    by (auto simp: is_slist_def)
  then show ?thesis using e Cons
    by (simp add: slist_pop_def Let_def is_slist_def chain_upd)
qed

lemma is_slist_add_after:
  assumes l: "is_slist s h xs" and nh: "n \<noteq> h" and nx: "n \<notin> set xs" and p: "p = h \<or> p \<in> set xs"
  shows "\<exists>ys. is_slist (slist_add_after s h p n loc) h ys \<and> length ys = Suc (length xs)"
proof (cases "p = h")
  case True
  have "slist_add_after s h h n loc = slist_add s h n loc"
    by (simp add: slist_add_after_def slist_add_def slist_debug_def)
  with True is_slist_add [OF l nh nx, of loc] show ?thesis by auto
next
  case False
  with p have "p \<in> set xs" by simp
  then obtain as bs where xs: "xs = as @ p # bs"
    by (auto dest: split_list)
  from l xs have c1: "chain s (s h) as p" and c2: "chain s (s p) bs h"
    and d: "distinct (as @ p # bs)" and hn: "h \<notin> set (as @ p # bs)"
    by (auto simp: is_slist_def chain_append)
  let ?s = "s(n := s p, p := n)"
  from nx xs have na: "n \<notin> set as" and nb: "n \<notin> set bs" and np: "n \<noteq> p" by auto
  from d have pa: "p \<notin> set as" and pb: "p \<notin> set bs" by auto
  from hn have hp: "h \<noteq> p" by auto
  have a: "chain ?s (?s h) as p"
    using c1 na pa nh hp by (simp add: chain_upd)
  have b: "chain ?s (s p) bs h"
    using c2 nb pb by (simp add: chain_upd)
  have "chain ?s (?s h) (as @ p # n # bs) h"
    using a b np by (auto simp: chain_append)
  moreover have "distinct (as @ p # n # bs)" using d na nb np by auto
  moreover have "h \<notin> set (as @ p # n # bs)" using hn nh by auto
  ultimately have "is_slist ?s h (as @ p # n # bs)"
    by (simp add: is_slist_def)
  moreover have "slist_add_after s h p n loc = ?s"
    by (simp add: slist_add_after_def slist_debug_def Let_def)
  ultimately show ?thesis using xs by auto
qed

lemma chain_nth: "chain s p xs q \<Longrightarrow> j < length xs \<Longrightarrow> (s ^^ j) p = xs ! j"
proof (induction xs arbitrary: p j)
  case Nil
  then show ?case by simp
next
  case (Cons x xs)
  show ?case
  proof (cases j)
    case 0
    with Cons.prems show ?thesis by simp
  next
    case (Suc k)
    with Cons.prems have "(s ^^ k) (s x) = xs ! k"
      by (intro Cons.IH) auto
    with Suc Cons.prems show ?thesis by (simp add: funpow_swap1)
  qed
qed

lemma chain_end: "chain s p xs q \<Longrightarrow> (s ^^ length xs) p = q"
  by (induction xs arbitrary: p) (auto simp: funpow_swap1)

lemma is_slist_single_cycle:
  assumes l: "is_slist s h xs"
  shows "single_cycle s h xs"
proof -
  from l have c: "chain s (s h) xs h" and d: "distinct xs" and hn: "h \<notin> set xs"
    by (auto simp: is_slist_def)
  have cyc: "(s ^^ Suc (length xs)) h = h"
    using chain_end [OF c] by (simp add: funpow_swap1)
  have fromh: "(s ^^ j) h \<noteq> h" if "j \<in> {1..length xs}" for j
  proof -
    from that obtain k where j: "j = Suc k" and k: "k < length xs"
      by (cases j) auto
    have "(s ^^ j) h = xs ! k"
      using chain_nth [OF c k] j by (simp add: funpow_swap1)
    with hn k show ?thesis by (metis nth_mem)
  qed
  have pos: "(s ^^ i) (s h) = xs ! i" if "i < length xs" for i
    using chain_nth [OF c that] .
  have froml: "(s ^^ (length xs - i)) (xs ! i) = h \<and>
      (\<forall>j \<in> {0..<length xs - i}. (s ^^ j) (xs ! i) \<noteq> h)" if "i \<in> {0..<length xs}" for i
  proof
    from that have i: "i < length xs" by simp
    have "(s ^^ (length xs - i)) (xs ! i) = (s ^^ (length xs - i + i)) (s h)"
      using pos [OF i] by (simp add: funpow_add)
    also have "\<dots> = h" using i chain_end [OF c] by simp
    finally show "(s ^^ (length xs - i)) (xs ! i) = h" .
    show "\<forall>j \<in> {0..<length xs - i}. (s ^^ j) (xs ! i) \<noteq> h"
    proof
      fix j assume "j \<in> {0..<length xs - i}"
      then have ji: "j + i < length xs" by auto
      have "(s ^^ j) (xs ! i) = (s ^^ (j + i)) (s h)"
        using pos [OF i] by (simp add: funpow_add)
      also have "\<dots> = xs ! (j + i)" using pos [OF ji] .
      finally show "(s ^^ j) (xs ! i) \<noteq> h" using hn ji by (metis nth_mem)
    qed
  qed
  from cyc fromh froml d hn show ?thesis
    unfolding single_cycle_def by simp
qed

lemma is_slist_run_op:
  assumes "is_slist s h xs" "op_ok h s x"
  shows "\<exists>ys. is_slist (run_op h off loc s x) h ys"
proof (cases x)
  case Init
  then show ?thesis using is_slist_init by auto
next
  case (Prepend n)
  with assms show ?thesis
    using is_slist_add [of s h xs n loc] by (auto simp: chain_links_is_slist)
next
  case (InsertAfter p n)
  with assms show ?thesis
    using is_slist_add_after [of s h xs n p loc] by (auto simp: chain_links_is_slist)
next
  case PopFirst
  with assms show ?thesis
    using is_slist_pop [of s h xs off loc] by auto
qed

lemma is_slist_run_ops:
  "is_slist s h xs \<Longrightarrow> ops_ok h off loc s ops \<Longrightarrow> \<exists>ys. is_slist (run_ops h off loc s ops) h ys"
proof (induction ops arbitrary: s xs)
  case Nil
  then show ?case by (auto simp: run_ops_def)
next
  case (Cons x ops)
  from Cons.prems have ok: "op_ok h s x" and rest: "ops_ok h off loc (run_op h off loc s x) ops"
    by auto
  from is_slist_run_op [OF Cons.prems(1) ok] obtain ys where "is_slist (run_op h off loc s x) h ys"
    by blast
  from Cons.IH [OF this rest] show ?case by (simp add: run_ops_def)
qed

lemma is_slist_add_all:
  "is_slist s h xs \<Longrightarrow> distinct ns \<Longrightarrow> set ns \<inter> set xs = {} \<Longrightarrow> h \<notin> set ns \<Longrightarrow>
   is_slist (foldl (\<lambda>s' n. slist_add s' h n loc) s ns) h (rev ns @ xs)"
proof (induction ns arbitrary: s xs)
  case Nil
  then show ?case by simp
next
  case (Cons n ns)
  from Cons.prems have "is_slist (slist_add s h n loc) h (n # xs)"
    by (intro is_slist_add) auto
  from Cons.IH [OF this] Cons.prems show ?case by simp
qed

lemma is_slist_prepend_all:
  assumes "distinct rs" "h \<notin> set (map (\<lambda>r. slist_node_from_off r off) rs)"
  shows "is_slist (prepend_all (slist_head_init s h) h off loc rs) h
           (rev (map (\<lambda>r. slist_node_from_off r off) rs))"
proof -
  have "distinct (map (\<lambda>r. slist_node_from_off r off) rs)"
    using assms(1) by (simp add: distinct_map inj_on_def slist_node_from_off_def)
  from is_slist_add_all [of "slist_head_init s h" h "[]" "map (\<lambda>r. slist_node_from_off r off) rs" loc,
      OF is_slist_init this _ assms(2)]
  show ?thesis
    by (simp add: prepend_all_def foldl_map)
qed

lemma is_slist_pop_times:
  "is_slist s h xs \<Longrightarrow> is_slist (pop_times k s h off loc) h (drop k xs)"
proof (induction k)
  case 0
  then show ?case by (simp add: pop_times_def)
next
  case (Suc k)
  from is_slist_pop [OF Suc.IH [OF Suc.prems], of off loc] show ?case
    by (simp add: pop_times_def drop_Suc tl_drop)
qed

subsection \<open>A chain that misses the head\<close>

text \<open>
  When the first link is its own successor, the loop of \<open>slist_for_each_off\<close> never meets
  the head again: no result is returned.
\<close>

lemma for_each_loop_self:
  assumes run: "for_each_loop s h i off = Some r"
  shows "\<not> (s (slist_node_from_off i off) = slist_node_from_off i off \<and> slist_node_from_off i off \<noteq> h)"
proof (rule for_each_loop.raw_induct
    [where P = "\<lambda>s h i off r. \<not> (s (slist_node_from_off i off) = slist_node_from_off i off \<and>
                                  slist_node_from_off i off \<noteq> h)", OF _ run], goal_cases)
  case (1 f s h i off r)
  show ?case
  proof
    assume a: "s (slist_node_from_off i off) = slist_node_from_off i off \<and> slist_node_from_off i off \<noteq> h"
    with 1(2) obtain rest where
      "f s h (slist_node_to_off (s (slist_node_from_off i off)) off) off = Some rest"
      by (auto split: bind_splits)
    with a have "f s h i off = Some rest" by (simp add: from_to_off)
    from 1(1) [OF this] a show False by simp
  qed
qed

lemma for_each_selfloop_None:
  assumes "s (s h) = s h" "s h \<noteq> h"
  shows "slist_for_each_off s h off loc = None"
proof (cases "slist_for_each_off s h off loc")
  case None
  then show ?thesis .
next
  case (Some r)
  then have "for_each_loop s h (slist_node_to_off (s h) off) off = Some r"
    by (simp add: slist_for_each_off_def slist_debug_def)
  from for_each_loop_self [OF this] assms show ?thesis
    by (simp add: to_from_off)
qed

lemmas run_defs = chain_links_def run_ops_def slist_for_each_off_def slist_debug_def slist_add_def
  slist_add_after_def slist_pop_def slist_empty_def
  slist_head_init_def for_each_loop.simps slist_node_from_off_def slist_node_to_off_def

subsection \<open>Order of traversal\<close>

text \<open>
  Property C1. Prepending the links of the owner records \<open>A\<close>, then \<open>B\<close>, then \<open>C\<close> with
  \<open>slist_add\<close> onto an initialised head, a full traversal with \<open>slist_for_each_off\<close>, and
  with \<open>slist_for_each\<close>, visits the owner records in the order \<open>C\<close>, \<open>B\<close>, \<open>A\<close>. The three
  records are different and none of their links is the head's own link.
\<close>

theorem prepend_order:
  assumes "distinct [A, B, C]"
    and "h \<notin> {slist_node_from_off A off, slist_node_from_off B off, slist_node_from_off C off}"
  shows "slist_for_each_off
           (slist_add (slist_add (slist_add (slist_head_init s h)
              h (slist_node_from_off A off) loc)
              h (slist_node_from_off B off) loc)
              h (slist_node_from_off C off) loc) h off loc = Some [C, B, A]
       \<and> slist_for_each
           (slist_add (slist_add (slist_add (slist_head_init s h)
              h (slist_node_from_off A off) loc)
              h (slist_node_from_off B off) loc)
              h (slist_node_from_off C off) loc) h off loc = Some [C, B, A]"
proof -
  let ?a = "slist_node_from_off A off" and ?b = "slist_node_from_off B off"
    and ?c = "slist_node_from_off C off"
  from assms have d: "?a \<noteq> h" "?b \<noteq> h" "?c \<noteq> h" "?b \<noteq> ?a" "?c \<noteq> ?a" "?c \<noteq> ?b"
    by (auto simp: slist_node_from_off_def)
  have 1: "is_slist (slist_add (slist_head_init s h) h ?a loc) h [?a]"
    using d by (intro is_slist_add is_slist_init) auto
  have 2: "is_slist (slist_add (slist_add (slist_head_init s h) h ?a loc) h ?b loc) h [?b, ?a]"
    using d by (intro is_slist_add 1) auto
  have 3: "is_slist (slist_add (slist_add (slist_add (slist_head_init s h) h ?a loc) h ?b loc)
              h ?c loc) h [?c, ?b, ?a]"
    using d by (intro is_slist_add 2) auto
  from slist_for_each_off_is_slist [OF 3, of off loc] show ?thesis
    by (simp add: slist_for_each_def from_to_off)
qed

theorem prepend_order_witness:
  "distinct [24, 40, 56 :: addr]
   \<and> (16 :: addr) \<notin> {slist_node_from_off 24 8, slist_node_from_off 40 8, slist_node_from_off 56 8}
   \<and> slist_for_each_off
           (slist_add (slist_add (slist_add (slist_head_init (\<lambda>_. 0) 16)
              16 (slist_node_from_off 24 8) None)
              16 (slist_node_from_off 40 8) None)
              16 (slist_node_from_off 56 8) None) 16 8 None = Some [56, 40, 24]
   \<and> slist_for_each
           (slist_add (slist_add (slist_add (slist_head_init (\<lambda>_. 0) 16)
              16 (slist_node_from_off 24 8) None)
              16 (slist_node_from_off 40 8) None)
              16 (slist_node_from_off 56 8) None) 16 8 None = Some [56, 40, 24]"
proof -
  have d: "distinct [24, 40, 56 :: addr]" by simp
  have h: "(16 :: addr) \<notin> {slist_node_from_off 24 8, slist_node_from_off 40 8, slist_node_from_off 56 8}"
    by (simp add: slist_node_from_off_def)
  from prepend_order [OF d h, of "\<lambda>_. 0" None] d h show ?thesis by blast
qed

subsection \<open>The chain is one cycle through the head\<close>

text \<open>
  Property C2, as stated: after any sequence of the operations, from any link of the chain
  the head's own link is reached after exactly as many steps as there are live elements.
  It fails twice. After prepending 32 and then 48 onto the head 16 the chain has the two
  live links 48 and 32, and two steps from 32 lead to 48, not to the head. And after
  prepending the link 32 twice, 32 is its own successor: the traversal never comes back
  to the head.
\<close>

theorem chain_cycle_counterexample:
  "chain_links (run_ops 16 0 None (slist_head_init (\<lambda>_. 0) 16) [Prepend 32, Prepend 48]) 16 = Some [48, 32]
   \<and> ((run_ops 16 0 None (slist_head_init (\<lambda>_. 0) 16) [Prepend 32, Prepend 48]) ^^ length [48, 32 :: addr]) 32 \<noteq> 16
   \<and> (run_ops 16 0 None (slist_head_init (\<lambda>_. 0) 16) [Prepend 32, Prepend 32]) 32 = 32
   \<and> chain_links (run_ops 16 0 None (slist_head_init (\<lambda>_. 0) 16) [Prepend 32, Prepend 32]) 16 = None"
proof -
  let ?s = "run_ops 16 0 None (slist_head_init (\<lambda>_. 0) 16) [Prepend 32, Prepend 32]"
  have a: "?s 32 = 32" and b: "?s 16 = 32"
    by (simp_all add: run_ops_def slist_add_def slist_head_init_def)
  have "chain_links ?s 16 = None"
    unfolding chain_links_def by (rule for_each_selfloop_None) (simp_all only: a b, simp)
  moreover have "chain_links (run_ops 16 0 None (slist_head_init (\<lambda>_. 0) 16) [Prepend 32, Prepend 48]) 16 = Some [48, 32]"
    by (simp add: run_defs)
  moreover have "((run_ops 16 0 None (slist_head_init (\<lambda>_. 0) 16) [Prepend 32, Prepend 48]) ^^ length [48, 32 :: addr]) 32 \<noteq> 16"
    by (simp add: run_ops_def slist_add_def slist_head_init_def)
  ultimately show ?thesis using a by blast
qed

text \<open>
  Property C2, amended. Take any sequence of \<open>slist_head_init\<close>, \<open>slist_add\<close>,
  \<open>slist_add_after\<close> and \<open>slist_pop\<close> on an initialised head in which every link that is
  added is neither the head's own link nor in the chain at that moment, and every
  \<open>slist_add_after\<close> is given the head's own link or a link of the chain. Then the
  traversal ends and finds the live links \<open>xs\<close>; the head's link and the links \<open>xs\<close> are
  pairwise different; from the head's link the chain returns to it after exactly
  \<open>length xs + 1\<close> steps and not before; and from the link at position \<open>i\<close> the head's link
  is reached after exactly \<open>length xs - i\<close> steps and not before.
\<close>

theorem chain_single_cycle:
  assumes "ops_ok h off loc (slist_head_init s0 h) ops"
  shows "\<exists>xs. chain_links (run_ops h off loc (slist_head_init s0 h) ops) h = Some xs \<and>
              single_cycle (run_ops h off loc (slist_head_init s0 h) ops) h xs"
proof -
  from is_slist_run_ops [OF is_slist_init assms] obtain ys
    where "is_slist (run_ops h off loc (slist_head_init s0 h) ops) h ys" by blast
  then show ?thesis
    by (auto simp: chain_links_is_slist is_slist_single_cycle)
qed

theorem chain_single_cycle_witness:
  "ops_ok 16 8 None (slist_head_init (\<lambda>_. 0) 16) [Prepend 32, Prepend 48, InsertAfter 32 64, PopFirst]
   \<and> chain_links (run_ops 16 8 None (slist_head_init (\<lambda>_. 0) 16)
        [Prepend 32, Prepend 48, InsertAfter 32 64, PopFirst]) 16 = Some [32, 64]
   \<and> single_cycle (run_ops 16 8 None (slist_head_init (\<lambda>_. 0) 16)
        [Prepend 32, Prepend 48, InsertAfter 32 64, PopFirst]) 16 [32, 64]"
proof -
  let ?ops = "[Prepend 32, Prepend 48, InsertAfter 32 64, PopFirst]"
  have ok: "ops_ok 16 8 None (slist_head_init (\<lambda>_. 0) 16) ?ops"
    by (simp add: run_defs)
  have l: "chain_links (run_ops 16 8 None (slist_head_init (\<lambda>_. 0) 16) ?ops) 16 = Some [32, 64]"
    by (simp add: run_defs)
  from chain_single_cycle [OF ok] l ok show ?thesis by auto
qed

subsection \<open>The integrity checker under \<open>CCAN_SLIST_DEBUG\<close>\<close>

text \<open>
  Property C3 asks that the checker of the debug build accepts every chain built by the
  documented operations. The checker compares \<open>n->prev\<close>, which no operation maintains:
  on a head that \<open>slist_head_init\<close> has just initialised, with the field reading 0 (as a
  static initialiser leaves it), \<open>slist_check\<close> returns \<open>NULL\<close> when given no abort string
  and aborts when given one.
\<close>

theorem debug_check_fresh_head:
  "slist_check_debug (\<lambda>_. 0) (slist_head_init (\<lambda>_. 0) 16) 16 None = Some (Inr NULL)
   \<and> slist_check_debug (\<lambda>_. 0) (slist_head_init (\<lambda>_. 0) 16) 16 (Some ''run.c:37'') = Some (Inl Aborted)"
  by (simp add: slist_check_debug_def slist_check_node_debug_def check_node_loop.simps
      slist_head_init_def corrupt_def NULL_def)

subsection \<open>The empty result\<close>




text \<open>
  Property C5. On a list that is not empty \<open>slist_pop\<close> returns the address of the first
  link minus the displacement, which is what \<open>slist_top\<close> returns, and afterwards the
  head's link refers to the old successor of the removed link. On an empty list it returns
  \<open>NULL\<close> and the store is unchanged.
\<close>

theorem pop_first_result:
  "(\<not> slist_empty s h loc \<longrightarrow>
      fst (slist_pop s h off loc) = slist_node_to_off (s h) off
      \<and> fst (slist_pop s h off loc) = slist_top s h off loc
      \<and> snd (slist_pop s h off loc) h = s (s h))
   \<and> (slist_empty s h loc \<longrightarrow> slist_pop s h off loc = (NULL, s))"
  by (simp add: slist_pop_def slist_top_def Let_def slist_node_to_off_def)

theorem pop_first_result_witness:
  "\<not> slist_empty ((\<lambda>_. 0)(16 := 32, 32 := 48, 48 := 16)) 16 None
   \<and> fst (slist_pop ((\<lambda>_. 0)(16 := 32, 32 := 48, 48 := 16)) 16 8 None) = 24
   \<and> snd (slist_pop ((\<lambda>_. 0)(16 := 32, 32 := 48, 48 := 16)) 16 8 None) 16 = 48
   \<and> slist_empty ((\<lambda>_. 0)(16 := 16)) 16 None
   \<and> slist_pop ((\<lambda>_. 0)(16 := 16)) 16 8 None = (NULL, (\<lambda>_. 0)(16 := 16))"
proof -
  let ?s = "(\<lambda>_. 0 :: addr)(16 := 32, 32 := 48, 48 := 16 :: addr)"
  let ?e = "(\<lambda>_. 0 :: addr)(16 := 16 :: addr)"
  have ne: "\<not> slist_empty ?s 16 None" and e: "slist_empty ?e 16 None"
    by (simp_all add: slist_empty_def slist_debug_def)
  from pop_first_result [of ?s 16 None 8] pop_first_result [of ?e 16 None 8] ne e show ?thesis
    by (simp add: slist_node_to_off_def)
qed

subsection \<open>Cardinality\<close>

text \<open>
  Property C6. After the links of \<open>k\<close> different owner records have been prepended onto
  an initialised head, a full traversal returns exactly \<open>k\<close> owner records (the records
  themselves, last prepended first); after \<open>k\<close> calls of \<open>slist_pop\<close> it returns none.
\<close>

theorem prepend_pop_cardinality:
  assumes "distinct rs" and "h \<notin> set (map (\<lambda>r. slist_node_from_off r off) rs)"
  shows "(\<exists>vs. slist_for_each_off (prepend_all (slist_head_init s h) h off loc rs) h off loc = Some vs
               \<and> length vs = length rs \<and> vs = rev rs)
       \<and> slist_for_each_off
            (pop_times (length rs) (prepend_all (slist_head_init s h) h off loc rs) h off loc)
            h off loc = Some []"
proof -
  let ?s = "prepend_all (slist_head_init s h) h off loc rs"
  have l: "is_slist ?s h (rev (map (\<lambda>r. slist_node_from_off r off) rs))"
    using assms by (rule is_slist_prepend_all)
  have "slist_for_each_off ?s h off loc = Some (rev rs)"
    using slist_for_each_off_is_slist [OF l, of off loc]
    by (simp add: rev_map [symmetric] from_to_off comp_def)
  moreover have "slist_for_each_off (pop_times (length rs) ?s h off loc) h off loc = Some []"
    using slist_for_each_off_is_slist [OF is_slist_pop_times [OF l, of "length rs" off loc], of off loc]
    by simp
  ultimately show ?thesis by simp
qed

theorem prepend_pop_cardinality_witness:
  "distinct [24, 40, 56, 72 :: addr]
   \<and> (16 :: addr) \<notin> set (map (\<lambda>r. slist_node_from_off r 8) [24, 40, 56, 72])
   \<and> (\<exists>vs. slist_for_each_off (prepend_all (slist_head_init (\<lambda>_. 0) 16) 16 8 None [24, 40, 56, 72])
               16 8 None = Some vs \<and> length vs = length [24, 40, 56, 72 :: addr])
   \<and> slist_for_each_off
        (pop_times (length [24, 40, 56, 72 :: addr]) (prepend_all (slist_head_init (\<lambda>_. 0) 16) 16 8 None [24, 40, 56, 72]) 16 8 None)
        16 8 None = Some []"
proof -
  have d: "distinct [24, 40, 56, 72 :: addr]" by simp
  have h: "(16 :: addr) \<notin> set (map (\<lambda>r. slist_node_from_off r 8) [24, 40, 56, 72])"
    by (simp add: slist_node_from_off_def)
  from prepend_pop_cardinality [OF d h, of "\<lambda>_. 0" None] d h show ?thesis by blast
qed

text \<open>
  Property C7. On a list that is not empty, \<open>slist_pop\<close> followed by \<open>slist_add\<close> of the
  link of the record that was popped gives back the very same store, so the full traversal
  returns the records in the original order.
\<close>

theorem pop_then_prepend:
  assumes "slist_for_each_off s h off loc = Some rs" and "\<not> slist_empty s h loc"
  shows "slist_add (snd (slist_pop s h off loc)) h
           (slist_node_from_off (fst (slist_pop s h off loc)) off) loc = s
       \<and> slist_for_each_off
           (slist_add (snd (slist_pop s h off loc)) h
              (slist_node_from_off (fst (slist_pop s h off loc)) off) loc) h off loc = Some rs"
proof -
  from assms(2) have ne: "s h \<noteq> h"
    by (simp add: slist_empty_def slist_debug_def)
  have "slist_add (snd (slist_pop s h off loc)) h
           (slist_node_from_off (fst (slist_pop s h off loc)) off) loc = s"
    using assms(2) ne
    by (auto simp: slist_pop_def slist_add_def Let_def slist_node_from_off_def fun_eq_iff)
  with assms(1) show ?thesis by simp
qed

theorem pop_then_prepend_witness:
  "slist_for_each_off ((\<lambda>_. 0)(16 := 32, 32 := 48, 48 := 16)) 16 8 None = Some [24, 40]
   \<and> \<not> slist_empty ((\<lambda>_. 0)(16 := 32, 32 := 48, 48 := 16)) 16 None
   \<and> fst (slist_pop ((\<lambda>_. 0)(16 := 32, 32 := 48, 48 := 16)) 16 8 None) = 24
   \<and> slist_for_each_off
        (slist_add (snd (slist_pop ((\<lambda>_. 0)(16 := 32, 32 := 48, 48 := 16)) 16 8 None)) 16
           (slist_node_from_off (fst (slist_pop ((\<lambda>_. 0)(16 := 32, 32 := 48, 48 := 16)) 16 8 None)) 8)
           None) 16 8 None = Some [24, 40]"
proof -
  let ?s = "(\<lambda>_. 0 :: addr)(16 := 32, 32 := 48, 48 := 16 :: addr)"
  have t: "slist_for_each_off ?s 16 8 None = Some [24, 40]"
    by (simp add: slist_for_each_off_def slist_debug_def for_each_loop.simps
        slist_node_from_off_def slist_node_to_off_def)
  have ne: "\<not> slist_empty ?s 16 None"
    by (simp add: slist_empty_def slist_debug_def)
  have f: "fst (slist_pop ?s 16 8 None) = 24"
    by (simp add: slist_pop_def slist_empty_def slist_debug_def)
  from pop_then_prepend [OF t ne] t ne f show ?thesis by blast
qed

subsection \<open>The integrity checker without \<open>CCAN_SLIST_DEBUG\<close>\<close>

text \<open>
  Property C8. Built without debug mode, \<open>slist_check_node\<close>, \<open>slist_check\<close> and the
  macros \<open>slist_debug\<close> and \<open>slist_debug_node\<close> return their argument and leave the store
  as it is, whatever the abort string; the result is not \<open>NULL\<close> for an argument that is
  not \<open>NULL\<close>.
\<close>

theorem debug_off_noop:
  "slist_check_node s node abortstr = (node, s)
   \<and> slist_check s h abortstr = (h, s)
   \<and> slist_debug s h loc = (h, s)
   \<and> slist_debug_node s node loc = (node, s)
   \<and> (node \<noteq> NULL \<longrightarrow> fst (slist_check_node s node abortstr) \<noteq> NULL)
   \<and> (h \<noteq> NULL \<longrightarrow> fst (slist_check s h abortstr) \<noteq> NULL)"
  by (simp add: slist_check_node_def slist_check_def slist_debug_def slist_debug_node_def)

theorem debug_off_noop_witness:
  "(32 :: addr) \<noteq> NULL
   \<and> fst (slist_check_node (\<lambda>_. 0) 32 None) \<noteq> NULL
   \<and> fst (slist_check (\<lambda>_. 0) 32 (Some ''run.c:31'')) \<noteq> NULL
   \<and> snd (slist_check_node (\<lambda>_. 0) 32 None) = (\<lambda>_. 0)"
proof -
  have n: "(32 :: addr) \<noteq> NULL" by (simp add: NULL_def)
  from debug_off_noop [of "\<lambda>_. 0" 32 None 32 None] debug_off_noop [of "\<lambda>_. 0" 32 "Some ''run.c:31''" 32 None] n
  show ?thesis by simp
qed

subsection \<open>Prepending is inserting after the head's link\<close>

text \<open>
  Property C9. \<open>slist_add(h, n)\<close> leaves the same store as \<open>slist_add_after(h, p, n)\<close>
  with \<open>p\<close> the head's own link \<open>&h->n\<close>.
\<close>

theorem add_is_add_after_head:
  "slist_add s h n loc = slist_add_after s h h n loc"
  by (simp add: slist_add_def slist_add_after_def slist_debug_def)

subsection \<open>What \<open>slist_pop\<close> writes\<close>

text \<open>
  Property C10. On a list that is not empty \<open>slist_pop\<close> writes the \<open>next\<close> field of the
  head and nothing else: the \<open>next\<close> field of every other node is what it was, that of the
  popped node included, which still refers to its old successor.
\<close>

theorem pop_frame:
  assumes "\<not> slist_empty s h loc"
  shows "snd (slist_pop s h off loc) = s(h := s (s h))
       \<and> (\<forall>a. a \<noteq> h \<longrightarrow> snd (slist_pop s h off loc) a = s a)
       \<and> snd (slist_pop s h off loc) (s h) = s (s h)"
  using assms by (simp add: slist_pop_def Let_def slist_empty_def slist_debug_def)

theorem pop_frame_witness:
  "\<not> slist_empty ((\<lambda>_. 0)(16 := 32, 32 := 48, 48 := 16)) 16 None
   \<and> snd (slist_pop ((\<lambda>_. 0)(16 := 32, 32 := 48, 48 := 16)) 16 8 None) 32 = 48
   \<and> snd (slist_pop ((\<lambda>_. 0)(16 := 32, 32 := 48, 48 := 16)) 16 8 None) 48 = 16
   \<and> snd (slist_pop ((\<lambda>_. 0)(16 := 32, 32 := 48, 48 := 16)) 16 8 None) 16 = 48"
proof -
  let ?s = "(\<lambda>_. 0 :: addr)(16 := 32, 32 := 48, 48 := 16 :: addr)"
  have ne: "\<not> slist_empty ?s 16 None"
    by (simp add: slist_empty_def slist_debug_def)
  from pop_frame [OF ne, of 8] ne show ?thesis by simp
qed

end
